theory Spec2Isabelle
  imports Complex_Main "HOL-Library.Multiset" "HOL-Library.Char_ord"
    "HOL-Library.List_Lexorder" "HOL-Library.Product_Lexorder" "HOL-Library.Word"
begin

section \<open>The sales dashboard of streamlit_1.py\<close>

text \<open>
  The script loads a table of orders, filters it by a date range and three multiselect
  lists, and derives four scalar metrics and six grouped tables from the filtered rows.
  A table is a list of rows in index order. A text cell is a string, compared by code
  point as Python compares it, or is missing (\<open>NaN\<close>, here \<open>None\<close>). \<open>quantity\<close> is a
  column of 64-bit integers, whose arithmetic wraps around, and \<open>price\<close> a column of
  64-bit floats. The date and the numeric cells of the file are taken to be present.
\<close>

subsection \<open>Floating-point arithmetic\<close>

text \<open>
  The script leaves the float arithmetic to numpy and pandas: the conversion of a 64-bit
  integer to a float, the rounded product, the sum of a column (\<open>Series.sum\<close>) and the sum
  of a group (\<open>groupby(...).sum()\<close>), which add the same numbers in different orders and
  round differently. The model takes the type of floats and these operations as a
  parameter, so that whatever is proved holds for the rounding the libraries do; floats
  are compared as numbers, none of them being \<open>NaN\<close>. A sum of no number is the float
  zero, whichever way it is taken.
\<close>

record 'f float_ops =
  of_int64 :: "64 word \<Rightarrow> 'f"
  fmul :: "'f \<Rightarrow> 'f \<Rightarrow> 'f"
  fzero :: 'f
  array_sum :: "'f list \<Rightarrow> 'f"
  group_sum :: "'f list \<Rightarrow> 'f"

definition series_sum :: "'f float_ops \<Rightarrow> 'f list \<Rightarrow> 'f" where
  "series_sum ops xs = (if xs = [] then fzero ops else array_sum ops xs)"

definition grouped_sum :: "'f float_ops \<Rightarrow> 'f list \<Rightarrow> 'f" where
  "grouped_sum ops xs = (if xs = [] then fzero ops else group_sum ops xs)"

text \<open>
  Exact arithmetic is one instance. It agrees with 64-bit floats as long as every number
  met is an integer below \<open>2\<^sup>5\<^sup>3\<close>, as in the small table further down.
\<close>

definition exact_ops :: "real float_ops" where
  "exact_ops = \<lparr>of_int64 = (\<lambda>q. real_of_int (sint q)), fmul = (\<lambda>a b. a * b), fzero = 0,
                 array_sum = sum_list, group_sum = sum_list\<rparr>"

subsection \<open>Calendar dates and timestamps\<close>

text \<open>
  \<open>datetime.date\<close> has the fields year, month and day and compares as the triple of
  them. A pandas timestamp is a calendar date with a time of day (in nanoseconds since
  midnight); \<open>.dt.date\<close> is its date.
\<close>

record date =
  year :: int
  month :: nat
  day :: nat

record timestamp =
  ts_date :: date
  ts_time :: nat

definition date_key :: "date \<Rightarrow> int \<times> nat \<times> nat" where
  "date_key d = (year d, month d, day d)"

definition date_le :: "date \<Rightarrow> date \<Rightarrow> bool" where
  "date_le a b = (date_key a \<le> date_key b)"

definition date_lt :: "date \<Rightarrow> date \<Rightarrow> bool" where
  "date_lt a b = (date_key a < date_key b)"

definition ts_key :: "timestamp \<Rightarrow> (int \<times> nat \<times> nat) \<times> nat" where
  "ts_key t = (date_key (ts_date t), ts_time t)"

definition ts_lt :: "timestamp \<Rightarrow> timestamp \<Rightarrow> bool" where
  "ts_lt a b = (ts_key a < ts_key b)"

subsection \<open>The table and its loader\<close>

text \<open>
  A row of the file read by \<open>pd.read_csv\<close>, and a row of the table \<open>load_data\<close>
  returns, which has the column \<open>revenue\<close> added at load time. (The loader also adds the
  text column \<open>month_year\<close>, which nothing reads afterwards; it is left out.)
\<close>

record 'f csv_row =
  order_date :: timestamp
  city :: "string option"
  product :: "string option"
  payment_method :: "string option"
  customer_name :: "string option"
  quantity :: "64 word"
  price :: 'f

record 'f order = "'f csv_row" +
  revenue :: 'f

definition add_revenue :: "'f float_ops \<Rightarrow> 'f csv_row \<Rightarrow> 'f order" where
  "add_revenue ops r =
     \<lparr>order_date = order_date r, city = city r, product = product r,
      payment_method = payment_method r, customer_name = customer_name r,
      quantity = quantity r, price = price r,
      revenue = fmul ops (of_int64 ops (quantity r)) (price r)\<rparr>"

definition load_data :: "'f float_ops \<Rightarrow> 'f csv_row list \<Rightarrow> 'f order list" where
  "load_data ops df = map (add_revenue ops) df"

subsection \<open>Filtering\<close>

text \<open>
  \<open>date_range\<close> is the tuple the date picker returns: it holds two dates once both
  ends are chosen and fewer while the choice is under way, and \<open>date_range[0]\<close>,
  \<open>date_range[1]\<close> raise \<open>IndexError\<close> on a shorter tuple. The three other criteria
  are the lists of the selected values; the options of a multiselect are the
  \<open>unique()\<close> values of its column, the missing value among them when the column has
  one, and \<open>isin\<close> holds for a missing cell when the missing value is selected. The
  boolean mask keeps the rows it holds for, in their order.
\<close>

datatype error = IndexError | TypeError

definition row_mask ::
  "date \<Rightarrow> date \<Rightarrow> string option list \<Rightarrow> string option list \<Rightarrow> string option list \<Rightarrow>
   'f order \<Rightarrow> bool" where
  "row_mask d0 d1 cities products payment_methods r =
     (date_le d0 (ts_date (order_date r)) \<and>
      date_le (ts_date (order_date r)) d1 \<and>
      city r \<in> set cities \<and>
      product r \<in> set products \<and>
      payment_method r \<in> set payment_methods)"

definition filtered_data ::
  "'f order list \<Rightarrow> date list \<Rightarrow> string option list \<Rightarrow> string option list \<Rightarrow>
   string option list \<Rightarrow> error + 'f order list" where
  "filtered_data data date_range cities products payment_methods =
     (case date_range of
        d0 # d1 # _ \<Rightarrow> Inr (filter (row_mask d0 d1 cities products payment_methods) data)
      | _ \<Rightarrow> Inl IndexError)"

subsection \<open>Key metrics\<close>

text \<open>
  The four \<open>st.metric\<close> values: the sum of a column, the number of rows
  (\<open>shape[0]\<close>) and the number of distinct values of a column (\<open>nunique\<close>, which
  leaves the missing value out). The integer sum is taken in 64 bits and wraps around.
\<close>

primrec dropna :: "'a option list \<Rightarrow> 'a list" where
  "dropna [] = []"
| "dropna (x # xs) = (case x of None \<Rightarrow> dropna xs | Some v \<Rightarrow> v # dropna xs)"


definition total_revenue :: "'f float_ops \<Rightarrow> 'f order list \<Rightarrow> 'f" where
  "total_revenue ops view = series_sum ops (map revenue view)"

definition order_count :: "'f order list \<Rightarrow> nat" where
  "order_count view = length view"



subsection \<open>Grouped tables\<close>

text \<open>
  \<open>Series.value_counts()\<close> leaves the missing cells out, pairs every distinct value
  of the column with the number of rows carrying it and sorts the pairs by descending
  count. The distinct values are met in the order of their first appearance; rows of equal
  count are kept here in that order (nothing below depends on how ties are broken).
\<close>

definition unique_vals :: "'a list \<Rightarrow> 'a list" where
  "unique_vals xs = rev (remdups (rev xs))"

definition value_counts :: "'a option list \<Rightarrow> ('a \<times> nat) list" where
  "value_counts xs =
     sort_key (\<lambda>kc. - int (snd kc))
       (map (\<lambda>k. (k, count_list (dropna xs) k)) (unique_vals (dropna xs)))"

text \<open>
  \<open>groupby(key)[val].sum()\<close> leaves the rows without a key out and has one row per
  distinct key, in ascending key order, holding the sum of \<open>val\<close> over the rows of that
  key, taken in their order. \<open>nlargest(n)\<close> keeps the \<open>n\<close> rows of greatest value
  in descending order, the earlier row first among equal values; on a column that is not
  numeric it raises \<open>TypeError\<close>.
\<close>

definition groupby_sum ::
  "'f float_ops \<Rightarrow> ('r \<Rightarrow> 'k::linorder option) \<Rightarrow> ('r \<Rightarrow> 'f) \<Rightarrow> 'r list \<Rightarrow> ('k \<times> 'f) list" where
  "groupby_sum ops key val rows =
     map (\<lambda>k. (k, grouped_sum ops (map val (filter (\<lambda>r. key r = Some k) rows))))
       (sort (remdups (dropna (map key rows))))"


definition city_orders :: "'f order list \<Rightarrow> (string \<times> nat) list" where
  "city_orders view = value_counts (map city view)"

definition product_orders :: "'f order list \<Rightarrow> (string \<times> nat) list" where
  "product_orders view = value_counts (map product view)"

definition payment_dist :: "'f order list \<Rightarrow> (string \<times> nat) list" where
  "payment_dist view = value_counts (map payment_method view)"

definition payment_revenue :: "'f float_ops \<Rightarrow> 'f order list \<Rightarrow> (string \<times> 'f) list" where
  "payment_revenue ops view = groupby_sum ops payment_method revenue view"


subsection \<open>Revenue over time\<close>

text \<open>
  The radio button offers three labels, which \<open>freq_map\<close> turns into the pandas
  frequency aliases \<open>'D'\<close>, \<open>'M'\<close> and \<open>'Q'\<close>. As pandas 2 reads them (the version
  whose \<open>value_counts().reset_index()\<close> names its columns as the charts expect), they
  are calendar day, month end and quarter end (of quarters ending in March, June,
  September and December).
\<close>

datatype time_agg = Journaliere | Mensuelle | Trimestrielle

datatype freq = Day | MonthEnd | QuarterEnd

fun freq_map :: "time_agg \<Rightarrow> freq" where
  "freq_map Journaliere = Day"
| "freq_map Mensuelle = MonthEnd"
| "freq_map Trimestrielle = QuarterEnd"

definition is_leap :: "int \<Rightarrow> bool" where
  "is_leap y = (y mod 4 = 0 \<and> (y mod 100 \<noteq> 0 \<or> y mod 400 = 0))"

definition days_in_month :: "int \<Rightarrow> nat \<Rightarrow> nat" where
  "days_in_month y m =
     (if m = 2 then (if is_leap y then 29 else 28)
      else if m = 4 \<or> m = 6 \<or> m = 9 \<or> m = 11 then 30 else 31)"

definition valid_date :: "date \<Rightarrow> bool" where
  "valid_date d = (1 \<le> year d \<and> 1 \<le> month d \<and> month d \<le> 12 \<and>
                   1 \<le> day d \<and> day d \<le> days_in_month (year d) (month d))"

definition next_day :: "date \<Rightarrow> date" where
  "next_day d =
     (if day d < days_in_month (year d) (month d) then d\<lparr>day := day d + 1\<rparr>
      else if month d < 12 then \<lparr>year = year d, month = month d + 1, day = 1\<rparr>
      else \<lparr>year = year d + 1, month = 1, day = 1\<rparr>)"

text \<open>
  The number of a day counted from 0001-01-01 as day 1 (\<open>date.toordinal()\<close>). The
  date types hold calendar dates only (\<open>valid_date\<close>); the table of days before a month
  is read for the months 1 to 12.
\<close>

definition days_before_year :: "int \<Rightarrow> int" where
  "days_before_year y = (y - 1) * 365 + (y - 1) div 4 - (y - 1) div 100 + (y - 1) div 400"

definition days_before_month :: "int \<Rightarrow> nat \<Rightarrow> int" where
  "days_before_month y m =
     int ([0, 31, 59, 90, 120, 151, 181, 212, 243, 273, 304, 334] ! (m - 1)) +
     (if 2 < m \<and> is_leap y then 1 else 0)"

definition toordinal :: "date \<Rightarrow> int" where
  "toordinal d = days_before_year (year d) + days_before_month (year d) (month d) + int (day d)"

text \<open>
  \<open>pd.Grouper(key='order_date', freq=f)\<close> cuts the time axis into the periods of
  \<open>f\<close>. A day is labelled by its own date; a month or a quarter is closed and labelled
  on the right, by its last day. \<open>period_end f d\<close> is the label of the period holding
  the date \<open>d\<close>, and \<open>period_index\<close> numbers the periods consecutively.
\<close>

fun period_end :: "freq \<Rightarrow> date \<Rightarrow> date" where
  "period_end Day d = d"
| "period_end MonthEnd d =
     \<lparr>year = year d, month = month d, day = days_in_month (year d) (month d)\<rparr>"
| "period_end QuarterEnd d =
     (let qm = ((month d - 1) div 3) * 3 + 3
      in \<lparr>year = year d, month = qm, day = days_in_month (year d) qm\<rparr>)"

fun period_index :: "freq \<Rightarrow> date \<Rightarrow> int" where
  "period_index Day d = toordinal d"
| "period_index MonthEnd d = year d * 12 + int (month d - 1)"
| "period_index QuarterEnd d = year d * 4 + int ((month d - 1) div 3)"

text \<open>
  The bins run without a gap from the period of the earliest row to the period of the
  latest one: each label is the end of the period that starts on the day after the label
  before it. An empty column has no bin.
\<close>

fun earliest :: "date \<Rightarrow> date list \<Rightarrow> date" where
  "earliest d [] = d"
| "earliest d (x # xs) = earliest (if date_lt x d then x else d) xs"

fun latest :: "date \<Rightarrow> date list \<Rightarrow> date" where
  "latest d [] = d"
| "latest d (x # xs) = latest (if date_lt d x then x else d) xs"

primrec label_seq :: "freq \<Rightarrow> nat \<Rightarrow> date \<Rightarrow> date list" where
  "label_seq f 0 l = [l]"
| "label_seq f (Suc n) l = l # label_seq f n (period_end f (next_day l))"

definition grouper_bins :: "freq \<Rightarrow> date list \<Rightarrow> date list" where
  "grouper_bins f ds =
     (case ds of
        [] \<Rightarrow> []
      | d # ds' \<Rightarrow>
          (let first = period_end f (earliest d ds');
               last = period_end f (latest d ds')
           in label_seq f (nat (period_index f last - period_index f first)) first))"

text \<open>
  \<open>.sum()\<close> over the bins gives one row per bin: the bin's label at midnight and the
  sum of \<open>revenue\<close> over the rows whose timestamp falls into the bin, which is the float
  zero for a bin that holds no row.
\<close>

definition midnight :: "date \<Rightarrow> timestamp" where
  "midnight d = \<lparr>ts_date = d, ts_time = 0\<rparr>"

definition bin_rows :: "freq \<Rightarrow> 'f order list \<Rightarrow> date \<Rightarrow> 'f order list" where
  "bin_rows f view l = filter (\<lambda>r. period_end f (ts_date (order_date r)) = l) view"

definition bin_revenue :: "'f float_ops \<Rightarrow> freq \<Rightarrow> 'f order list \<Rightarrow> date \<Rightarrow> 'f" where
  "bin_revenue ops f view l = grouped_sum ops (map revenue (bin_rows f view l))"

definition time_data ::
  "'f float_ops \<Rightarrow> 'f order list \<Rightarrow> time_agg \<Rightarrow> (timestamp \<times> 'f) list" where
  "time_data ops view agg =
     (let f = freq_map agg
      in map (\<lambda>l. (midnight l, bin_revenue ops f view l))
           (grouper_bins f (map (\<lambda>r. ts_date (order_date r)) view)))"

subsection \<open>A small table\<close>

text \<open>
  Two orders used to run the definitions: two units at 10 sold in Paris on 2023-01-05,
  and one unit at 50 sold in Lyon on 2023-02-10.
\<close>

definition ymd :: "int \<Rightarrow> nat \<Rightarrow> nat \<Rightarrow> date" where
  "ymd y m d = \<lparr>year = y, month = m, day = d\<rparr>"

definition scenario_csv :: "real csv_row list" where
  "scenario_csv =
     [\<lparr>order_date = midnight (ymd 2023 1 5), city = Some ''Paris'', product = Some ''A'',
       payment_method = Some ''card'', customer_name = Some ''X'', quantity = 2, price = 10\<rparr>,
      \<lparr>order_date = midnight (ymd 2023 2 10), city = Some ''Lyon'', product = Some ''B'',
       payment_method = Some ''cash'', customer_name = Some ''Y'', quantity = 1, price = 50\<rparr>]"

definition scenario_data :: "real order list" where
  "scenario_data = load_data exact_ops scenario_csv"

definition full_range :: "date list" where
  "full_range = [ymd 2023 1 5, ymd 2023 2 10]"

definition all_cities :: "string option list" where
  "all_cities = [Some ''Paris'', Some ''Lyon'']"

definition all_products :: "string option list" where
  "all_products = [Some ''A'', Some ''B'']"

definition all_payments :: "string option list" where
  "all_payments = [Some ''card'', Some ''cash'']"



definition blank_csv :: "real csv_row list" where
  "blank_csv =
     [\<lparr>order_date = midnight (ymd 2023 1 5), city = None, product = Some ''A'',
       payment_method = None, customer_name = Some ''X'', quantity = 2, price = 10\<rparr>]"

definition blank_data :: "real order list" where
  "blank_data = load_data exact_ops blank_csv"


section \<open>Properties of the filter\<close>

lemma date_le_trans: "date_le a b \<Longrightarrow> date_le b c \<Longrightarrow> date_le a c"
  unfolding date_le_def by (rule order_trans)

lemma date_lt_not_le: "date_lt a b \<Longrightarrow> \<not> date_le b a"
  unfolding date_le_def date_lt_def by (simp add: not_le)

lemma count_list_filter_le: "count_list (filter P xs) x \<le> count_list xs x"
  by (induction xs) auto

lemma filter_mask_mono:
  assumes "\<And>x. P x \<Longrightarrow> Q x"
  shows "length (filter P xs) \<le> length (filter Q xs)"
  using assms by (induction xs) auto

lemma scenario_paris:
  "filtered_data scenario_data full_range [Some ''Paris''] all_products all_payments
     = Inr [hd scenario_data]"
  by (simp add: filtered_data_def full_range_def scenario_data_def scenario_csv_def
      load_data_def add_revenue_def exact_ops_def midnight_def all_cities_def all_products_def all_payments_def ymd_def row_mask_def date_le_def date_key_def)

lemma scenario_all:
  "filtered_data scenario_data full_range all_cities all_products all_payments
     = Inr scenario_data"
  by (simp add: filtered_data_def full_range_def scenario_data_def scenario_csv_def
      load_data_def add_revenue_def exact_ops_def midnight_def all_cities_def all_products_def all_payments_def ymd_def row_mask_def date_le_def date_key_def)

text \<open>
  C1. With both ends of the date range chosen, the filter returns exactly the rows of the
  table, in their order, whose order date lies between the two ends (both included, dates
  compared as year, month, day) and whose city, product and payment method are each among
  the selected values: the five tests are joined by "and".
\<close>

theorem filtered_data_exact:
  "filtered_data data [date_start, date_end] city_set product_set payment_set =
     Inr (filter (\<lambda>r. date_key date_start \<le> date_key (ts_date (order_date r)) \<and>
                       date_key (ts_date (order_date r)) \<le> date_key date_end \<and>
                       city r \<in> set city_set \<and>
                       product r \<in> set product_set \<and>
                       payment_method r \<in> set payment_set) data)"
  by (simp add: filtered_data_def row_mask_def [abs_def] date_le_def)

text \<open>
  C2. The filter does not raise on a vacuous choice: if one of the three selections is
  empty, if no row lies in the date range, or if the range ends before it starts, the
  result is the empty table.
\<close>

theorem filtered_data_vacuous:
  "(city_set = [] \<or> product_set = [] \<or> payment_set = [] \<longrightarrow>
      filtered_data data [date_start, date_end] city_set product_set payment_set = Inr []) \<and>
   ((\<forall>r \<in> set data. \<not> (date_le date_start (ts_date (order_date r)) \<and>
                           date_le (ts_date (order_date r)) date_end)) \<longrightarrow>
      filtered_data data [date_start, date_end] city_set product_set payment_set = Inr []) \<and>
   (date_lt date_end date_start \<longrightarrow>
      filtered_data data [date_start, date_end] city_set product_set payment_set = Inr [])"
proof (intro conjI impI)
  assume "city_set = [] \<or> product_set = [] \<or> payment_set = []"
  then have "\<forall>r \<in> set data. \<not> row_mask date_start date_end city_set product_set payment_set r"
    by (auto simp: row_mask_def)
  then show "filtered_data data [date_start, date_end] city_set product_set payment_set = Inr []"
    by (simp add: filtered_data_def)
next
  assume "\<forall>r \<in> set data. \<not> (date_le date_start (ts_date (order_date r)) \<and>
                           date_le (ts_date (order_date r)) date_end)"
  then have "\<forall>r \<in> set data. \<not> row_mask date_start date_end city_set product_set payment_set r"
    by (auto simp: row_mask_def)
  then show "filtered_data data [date_start, date_end] city_set product_set payment_set = Inr []"
    by (simp add: filtered_data_def)
next
  assume lt: "date_lt date_end date_start"
  have "\<not> row_mask date_start date_end city_set product_set payment_set r"
    if "r \<in> set data" for r
  proof
    assume "row_mask date_start date_end city_set product_set payment_set r"
    then have "date_le date_start date_end"
      unfolding row_mask_def by (blast intro: date_le_trans)
    with lt show False by (simp add: date_lt_not_le)
  qed
  then show "filtered_data data [date_start, date_end] city_set product_set payment_set = Inr []"
    by (simp add: filtered_data_def)
qed

theorem filtered_data_vacuous_witness:
  "filtered_data scenario_data full_range [] all_products all_payments = Inr [] \<and>
   filtered_data scenario_data [ymd 2024 1 1, ymd 2024 12 31]
     all_cities all_products all_payments = Inr [] \<and>
   filtered_data scenario_data [ymd 2023 2 10, ymd 2023 1 5]
     all_cities all_products all_payments = Inr []"
proof -
  have a: "([]::string option list) = [] \<or> all_products = [] \<or> all_payments = []"
    by simp
  have b: "\<forall>r \<in> set scenario_data. \<not> (date_le (ymd 2024 1 1) (ts_date (order_date r)) \<and>
             date_le (ts_date (order_date r)) (ymd 2024 12 31))"
    by (simp add: scenario_data_def scenario_csv_def load_data_def add_revenue_def midnight_def
        ymd_def date_le_def date_key_def)
  have c: "date_lt (ymd 2023 1 5) (ymd 2023 2 10)"
    by (simp add: date_lt_def date_key_def ymd_def)
  show ?thesis
    using a b c
      filtered_data_vacuous [of "[]" all_products all_payments scenario_data
        "ymd 2023 1 5" "ymd 2023 2 10"]
      filtered_data_vacuous [of all_cities all_products all_payments
        scenario_data "ymd 2024 1 1" "ymd 2024 12 31"]
      filtered_data_vacuous [of all_cities all_products all_payments
        scenario_data "ymd 2023 2 10" "ymd 2023 1 5"]
    by (simp add: full_range_def)
qed

text \<open>
  C3. The filtered table is a part of the loaded table: each of its rows is a row of the
  table, and no row occurs in it more often than in the table.
\<close>

theorem filtered_data_subset:
  "\<exists>view. filtered_data data [date_start, date_end] city_set product_set payment_set = Inr view \<and>
          set view \<subseteq> set data \<and>
          (\<forall>r. count_list view r \<le> count_list data r)"
  by (simp add: filtered_data_def count_list_filter_le)

text \<open>
  C4. Two filters over the same table that agree on the date range and on two of the three
  selections, the third selection of the one being included in that of the other: the
  wider filter keeps at least as many rows as the narrower one.
\<close>

theorem order_count_monotone:
  fixes data :: "'f order list"
  assumes "filtered_data data date_range cities products payment_methods = Inr narrow"
    and "filtered_data data date_range cities' products' payment_methods' = Inr wide"
    and "(set cities \<subseteq> set cities' \<and> products' = products \<and> payment_methods' = payment_methods) \<or>
         (cities' = cities \<and> set products \<subseteq> set products' \<and> payment_methods' = payment_methods) \<or>
         (cities' = cities \<and> products' = products \<and> set payment_methods \<subseteq> set payment_methods')"
  shows "order_count narrow \<le> order_count wide"
proof -
  from assms(1) obtain d0 d1 rest where dr: "date_range = d0 # d1 # rest"
    by (auto simp: filtered_data_def split: list.splits)
  have n: "narrow = filter (row_mask d0 d1 cities products payment_methods) data"
    using assms(1) by (simp add: filtered_data_def dr)
  have w: "wide = filter (row_mask d0 d1 cities' products' payment_methods') data"
    using assms(2) by (simp add: filtered_data_def dr)
  have "row_mask d0 d1 cities products payment_methods r \<Longrightarrow>
        row_mask d0 d1 cities' products' payment_methods' r" for r :: "'f order"
    using assms(3) by (auto simp: row_mask_def)
  then show ?thesis
    unfolding order_count_def n w by (rule filter_mask_mono)
qed

theorem order_count_monotone_witness:
  "filtered_data scenario_data full_range [Some ''Paris''] all_products all_payments
     = Inr [hd scenario_data] \<and>
   filtered_data scenario_data full_range all_cities all_products all_payments
     = Inr scenario_data \<and>
   set [Some ''Paris''] \<subseteq> set all_cities \<and>
   order_count [hd scenario_data] \<le> order_count scenario_data"
proof -
  have c: "set [Some ''Paris''] \<subseteq> set all_cities" by (simp add: all_cities_def)
  show ?thesis
    using order_count_monotone [OF scenario_paris scenario_all] scenario_paris scenario_all c
    by simp
qed

section \<open>Properties of the metrics and of the grouped tables\<close>





lemma set_dropna: "set (dropna xs) = {v. Some v \<in> set xs}"
  by (induction xs) (auto split: option.splits)

lemma count_list_dropna: "count_list (dropna xs) k = count_list xs (Some k)"
  by (induction xs) (auto split: option.splits)

lemma count_list_map: "count_list (map f xs) k = length (filter (\<lambda>x. f x = k) xs)"
  by (induction xs) auto

lemma length_dropna: "length (dropna xs) = length (filter (\<lambda>x. x \<noteq> None) xs)"
  by (induction xs) (auto split: option.splits)

lemma dropna_all_present: "\<forall>x \<in> set xs. x \<noteq> None \<Longrightarrow> length (dropna xs) = length xs"
  by (induction xs) (auto split: option.splits)

lemma sum_list_sort_key:
  fixes f :: "'a \<Rightarrow> 'b::comm_monoid_add"
  shows "sum_list (map f (sort_key g ys)) = sum_list (map f ys)"
proof -
  have "mset (map f (sort_key g ys)) = mset (map f ys)" by simp
  then have "sum_mset (mset (map f (sort_key g ys))) = sum_mset (mset (map f ys))"
    by (rule arg_cong)
  then show ?thesis by (simp only: sum_mset_sum_list)
qed

lemma distinct_map_sort_key: "distinct (map f (sort_key g ys)) = distinct (map f ys)"
proof -
  have "mset (map f (sort_key g ys)) = mset (map f ys)" by simp
  then show ?thesis by (rule mset_eq_imp_distinct_iff)
qed

lemma distinct_unique_vals: "distinct (unique_vals xs)"
  by (simp add: unique_vals_def)

lemma set_unique_vals: "set (unique_vals xs) = set xs"
  by (simp add: unique_vals_def)

lemma value_counts_keys_distinct: "distinct (map fst (value_counts xs))"
  by (simp add: value_counts_def distinct_map_sort_key comp_def distinct_unique_vals)

lemma value_counts_keys_set: "set (map fst (value_counts xs)) = {v. Some v \<in> set xs}"
proof -
  have "set (map fst (value_counts xs)) =
        fst ` set (map (\<lambda>k. (k, count_list (dropna xs) k)) (unique_vals (dropna xs)))"
    by (simp add: value_counts_def)
  also have "\<dots> = set (unique_vals (dropna xs))" by (simp add: image_image)
  finally show ?thesis by (simp add: set_unique_vals set_dropna)
qed

lemma value_counts_rows:
  "value_counts xs = map (\<lambda>k. (k, count_list xs (Some k))) (map fst (value_counts xs))"
proof -
  have "\<And>p. p \<in> set (value_counts xs) \<Longrightarrow> (fst p, count_list xs (Some (fst p))) = p"
    by (auto simp: value_counts_def count_list_dropna)
  then have "map (\<lambda>p. (fst p, count_list xs (Some (fst p)))) (value_counts xs) = value_counts xs"
    by (simp add: map_idI)
  then show ?thesis by (simp add: comp_def)
qed

lemma sorted_neg_int_desc:
  "sorted (map (\<lambda>p. - int (snd p)) ys) \<Longrightarrow> sorted_wrt (\<lambda>a b. b \<le> a) (map snd ys)"
  by (simp add: sorted_wrt_map)

lemma value_counts_desc: "sorted_wrt (\<lambda>a b. b \<le> a) (map snd (value_counts xs))"
  unfolding value_counts_def by (rule sorted_neg_int_desc) (rule sorted_sort_key)

lemma value_counts_Nil: "value_counts [] = []"
  by (simp add: value_counts_def unique_vals_def)

lemma value_counts_sum: "sum_list (map snd (value_counts xs)) = length (dropna xs)"
proof -
  have "sum_list (map snd (value_counts xs)) =
        sum_list (map (count_list (dropna xs)) (unique_vals (dropna xs)))"
    by (simp add: value_counts_def sum_list_sort_key comp_def)
  also have "\<dots> = sum (count_list (dropna xs)) (set (unique_vals (dropna xs)))"
    by (rule sum_list_distinct_conv_sum_set) (rule distinct_unique_vals)
  also have "\<dots> = length (dropna xs)"
    by (simp add: set_unique_vals sum_count_set)
  finally show ?thesis .
qed

lemma value_counts_column:
  "distinct (map fst (value_counts (map f view))) \<and>
   set (map fst (value_counts (map f view))) = {v. Some v \<in> f ` set view} \<and>
   value_counts (map f view) =
     map (\<lambda>k. (k, length (filter (\<lambda>r. f r = Some k) view)))
       (map fst (value_counts (map f view))) \<and>
   sorted_wrt (\<lambda>a b. b \<le> a) (map snd (value_counts (map f view)))"
proof (intro conjI)
  show "value_counts (map f view) =
     map (\<lambda>k. (k, length (filter (\<lambda>r. f r = Some k) view)))
       (map fst (value_counts (map f view)))"
    using value_counts_rows [of "map f view"] by (simp only: count_list_map)
next
  show "set (map fst (value_counts (map f view))) = {v. Some v \<in> f ` set view}"
    using value_counts_keys_set [of "map f view"] by simp
qed (simp_all only: value_counts_keys_distinct value_counts_desc)

text \<open>
  C6. The three count tables (orders by city, by product and by payment method) each
  have one row per distinct value of their column in the filtered table, holding the
  number of rows that carry the value, in descending order of that number; on the empty
  table each of them is empty.
\<close>

theorem value_counts_tables:
  "(distinct (map fst (city_orders view)) \<and>
    set (map fst (city_orders view)) = {v. Some v \<in> city ` set view} \<and>
    city_orders view =
      map (\<lambda>k. (k, length (filter (\<lambda>r. city r = Some k) view))) (map fst (city_orders view)) \<and>
    sorted_wrt (\<lambda>a b. b \<le> a) (map snd (city_orders view))) \<and>
   (distinct (map fst (product_orders view)) \<and>
    set (map fst (product_orders view)) = {v. Some v \<in> product ` set view} \<and>
    product_orders view =
      map (\<lambda>k. (k, length (filter (\<lambda>r. product r = Some k) view)))
        (map fst (product_orders view)) \<and>
    sorted_wrt (\<lambda>a b. b \<le> a) (map snd (product_orders view))) \<and>
   (distinct (map fst (payment_dist view)) \<and>
    set (map fst (payment_dist view)) = {v. Some v \<in> payment_method ` set view} \<and>
    payment_dist view =
      map (\<lambda>k. (k, length (filter (\<lambda>r. payment_method r = Some k) view)))
        (map fst (payment_dist view)) \<and>
    sorted_wrt (\<lambda>a b. b \<le> a) (map snd (payment_dist view))) \<and>
   city_orders [] = [] \<and> product_orders [] = [] \<and> payment_dist [] = []"
  unfolding city_orders_def product_orders_def payment_dist_def
  using value_counts_column [of city view] value_counts_column [of product view]
    value_counts_column [of payment_method view]
  by (simp only: list.map value_counts_Nil simp_thms)

lemma groupby_sum_keys:
  "map fst (groupby_sum ops key val rows) = sort (remdups (dropna (map key rows)))"
  by (simp add: groupby_sum_def comp_def)

lemma groupby_sum_distinct: "distinct (map fst (groupby_sum ops key val rows))"
  by (simp add: groupby_sum_keys)

lemma groupby_sum_key_set:
  "set (map fst (groupby_sum ops key val rows)) = {k. Some k \<in> key ` set rows}"
  by (simp add: groupby_sum_keys set_dropna)


lemma groupby_sum_member:
  "p \<in> set (groupby_sum ops key val rows) \<Longrightarrow>
   snd p = grouped_sum ops (map val (filter (\<lambda>r. key r = Some (fst p)) rows))"
  by (auto simp: groupby_sum_def)

lemma rows_by_key:
  assumes "\<And>p. p \<in> set ys \<Longrightarrow> snd p = g (fst p)"
  shows "ys = map (\<lambda>k. (k, g k)) (map fst ys)"
proof -
  have "map (\<lambda>p. (fst p, g (fst p))) ys = ys"
    by (rule map_idI) (simp add: assms [symmetric])
  then show ?thesis by (simp add: comp_def)
qed

lemma groupby_sum_rows:
  "groupby_sum ops key val rows =
     map (\<lambda>k. (k, grouped_sum ops (map val (filter (\<lambda>r. key r = Some k) rows))))
       (map fst (groupby_sum ops key val rows))"
  by (rule rows_by_key) (rule groupby_sum_member)

lemma groups_partition_set:
  assumes "finite S" and "{k. Some k \<in> key ` set rows} \<subseteq> S"
  shows "(\<Sum>k\<in>S. mset (filter (\<lambda>r. key r = Some k) rows)) =
         mset (filter (\<lambda>r. key r \<noteq> None) rows)"
  using assms(2)
proof (induction rows)
  case Nil
  then show ?case by simp
next
  case (Cons r rows)
  then have sub: "{k. Some k \<in> key ` set rows} \<subseteq> S" by auto
  show ?case
  proof (cases "key r")
    case None
    then show ?thesis using Cons.IH [OF sub] by simp
  next
    case (Some k0)
    with Cons.prems have mem: "k0 \<in> S" by auto
    have "(\<Sum>k\<in>S. mset (filter (\<lambda>x. key x = Some k) (r # rows))) =
          (\<Sum>k\<in>S. (if k0 = k then {#r#} else {#}) + mset (filter (\<lambda>x. key x = Some k) rows))"
      by (rule sum.cong) (auto simp: Some)
    also have "\<dots> = (\<Sum>k\<in>S. if k0 = k then {#r#} else {#}) +
                     (\<Sum>k\<in>S. mset (filter (\<lambda>x. key x = Some k) rows))"
      by (rule sum.distrib)
    also have "(\<Sum>k\<in>S. if k0 = k then {#r#} else {#}) = {#r#}"
      using assms(1) mem by simp
    finally show ?thesis using Cons.IH [OF sub] Some by simp
  qed
qed

lemma groupby_sum_partition:
  "mset (concat (map (\<lambda>k. filter (\<lambda>r. key r = Some k) rows)
                   (map fst (groupby_sum ops key val rows)))) =
   mset (filter (\<lambda>r. key r \<noteq> None) rows)"
proof -
  let ?ks = "map fst (groupby_sum ops key val rows)"
  let ?g = "\<lambda>k. mset (filter (\<lambda>r. key r = Some k) rows)"
  have "mset (concat (map (\<lambda>k. filter (\<lambda>r. key r = Some k) rows) ?ks)) = sum_list (map ?g ?ks)"
    by (simp add: mset_concat comp_def)
  also have "\<dots> = sum ?g (set ?ks)"
    by (rule sum_list_distinct_conv_sum_set) (rule groupby_sum_distinct)
  also have "\<dots> = mset (filter (\<lambda>r. key r \<noteq> None) rows)"
  proof (rule groups_partition_set)
    show "finite (set ?ks)" by (rule finite_set)
    show "{k. Some k \<in> key ` set rows} \<subseteq> set ?ks"
      by (simp only: groupby_sum_key_set subset_refl)
  qed
  finally show ?thesis .
qed

lemma blank_view:
  "filtered_data blank_data [ymd 2023 1 5, ymd 2023 1 5] [None] [Some ''A''] [None]
     = Inr blank_data"
  by (simp add: filtered_data_def blank_data_def blank_csv_def load_data_def add_revenue_def
      midnight_def ymd_def row_mask_def date_le_def date_key_def)

lemma scenario_counts: "city_orders scenario_data = [(''Paris'', 1), (''Lyon'', 1)]"
  by (simp add: city_orders_def value_counts_def unique_vals_def scenario_data_def
      scenario_csv_def load_data_def add_revenue_def)

text \<open>
  C10. As stated the claim fails: a row whose city cell is missing passes the filter when
  the missing value is selected, as it is by default, and counts as an order, but belongs
  to no row of the orders-by-city table; a row without a payment method adds to the total
  revenue and to no row of the revenue-by-payment-method table. On the table whose only
  row has neither, the view has one order and a total revenue of 20, the counts by city
  add up to 0 and the revenue by payment method is empty.
\<close>

theorem partition_totals_counterexample:
  "filtered_data blank_data [ymd 2023 1 5, ymd 2023 1 5] [None] [Some ''A''] [None]
     = Inr blank_data \<and>
   sum_list (map snd (city_orders blank_data)) = 0 \<and> order_count blank_data = 1 \<and>
   sum_list (map snd (city_orders blank_data)) \<noteq> order_count blank_data \<and>
   payment_revenue exact_ops blank_data = [] \<and> total_revenue exact_ops blank_data = 20"
  using blank_view
  by (simp add: city_orders_def value_counts_def unique_vals_def order_count_def
      payment_revenue_def groupby_sum_def total_revenue_def series_sum_def blank_data_def
      blank_csv_def load_data_def add_revenue_def exact_ops_def)

text \<open>
  C10, amended. For every filtered view, the counts of the orders-by-city table add up to
  the number of rows of the view that have a city, which is the number of orders when no
  city is missing. The revenue-by-payment-method table has one row per payment method
  present in the view; its rows split the rows of the view that have a payment method,
  each of them falling into exactly one group, and the revenue of a row is the float sum
  of the stored revenue of its group. (The total revenue is a float sum of its own, taken
  over all rows in another order: the claim's second equation is not kept.)
\<close>

theorem partition_totals:
  "sum_list (map snd (city_orders view)) = length (filter (\<lambda>r. city r \<noteq> None) view) \<and>
   ((\<forall>r \<in> set view. city r \<noteq> None) \<longrightarrow>
      sum_list (map snd (city_orders view)) = order_count view) \<and>
   distinct (map fst (payment_revenue ops view)) \<and>
   set (map fst (payment_revenue ops view)) = {p. Some p \<in> payment_method ` set view} \<and>
   mset (concat (map (\<lambda>k. filter (\<lambda>r. payment_method r = Some k) view)
                   (map fst (payment_revenue ops view)))) =
     mset (filter (\<lambda>r. payment_method r \<noteq> None) view) \<and>
   payment_revenue ops view =
     map (\<lambda>k. (k, grouped_sum ops (map revenue (filter (\<lambda>r. payment_method r = Some k) view))))
       (map fst (payment_revenue ops view))"
proof (intro conjI impI)
  show n: "sum_list (map snd (city_orders view)) = length (filter (\<lambda>r. city r \<noteq> None) view)"
    by (simp add: city_orders_def value_counts_sum length_dropna filter_map comp_def)
  show "sum_list (map snd (city_orders view)) = order_count view"
    if "\<forall>r \<in> set view. city r \<noteq> None"
    using that by (simp add: n order_count_def)
  show "distinct (map fst (payment_revenue ops view))"
    unfolding payment_revenue_def by (rule groupby_sum_distinct)
  show "set (map fst (payment_revenue ops view)) = {p. Some p \<in> payment_method ` set view}"
    unfolding payment_revenue_def by (rule groupby_sum_key_set)
  show "mset (concat (map (\<lambda>k. filter (\<lambda>r. payment_method r = Some k) view)
                   (map fst (payment_revenue ops view)))) =
     mset (filter (\<lambda>r. payment_method r \<noteq> None) view)"
    unfolding payment_revenue_def by (rule groupby_sum_partition)
  show "payment_revenue ops view =
     map (\<lambda>k. (k, grouped_sum ops (map revenue (filter (\<lambda>r. payment_method r = Some k) view))))
       (map fst (payment_revenue ops view))"
    unfolding payment_revenue_def by (rule groupby_sum_rows)
qed

theorem partition_totals_witness:
  "city (hd scenario_data) \<noteq> None \<and> city (hd (tl scenario_data)) \<noteq> None \<and>
   length scenario_data = 2 \<and>
   city_orders scenario_data = [(''Paris'', 1), (''Lyon'', 1)] \<and>
   sum_list (map snd (city_orders scenario_data)) = order_count scenario_data"
proof -
  have p: "\<forall>r \<in> set scenario_data. city r \<noteq> None"
    by (simp add: scenario_data_def scenario_csv_def load_data_def add_revenue_def)
  have "sum_list (map snd (city_orders scenario_data)) = order_count scenario_data"
    using partition_totals [of scenario_data exact_ops] p by blast
  moreover have "city (hd scenario_data) \<noteq> None \<and> city (hd (tl scenario_data)) \<noteq> None \<and>
      length scenario_data = 2"
    by (simp add: scenario_data_def scenario_csv_def load_data_def add_revenue_def)
  ultimately show ?thesis using scenario_counts by simp
qed























section \<open>Properties of the table of revenue over time\<close>

subsection \<open>The calendar\<close>

lemma div_step:
  fixes y k :: int
  assumes "0 < k"
  shows "y div k - (y - 1) div k = (if y mod k = 0 then 1 else 0)"
proof (cases "y mod k = 0")
  case True
  have "k * (y div k) + y mod k = y" by (rule mult_div_mod_eq)
  with True have eq: "y - 1 = k * (y div k - 1) + (k - 1)"
    by (simp add: algebra_simps)
  have "(y - 1) div k = y div k - 1"
    by (rule int_div_pos_eq [OF eq]) (use assms in simp_all)
  with True show ?thesis by simp
next
  case False
  have "0 \<le> y mod k" using assms by simp
  with False have pos: "0 \<le> y mod k - 1" by linarith
  have lt: "y mod k - 1 < k" using pos_mod_bound [OF assms, of y] by linarith
  have "k * (y div k) + y mod k = y" by (rule mult_div_mod_eq)
  then have eq: "y - 1 = k * (y div k) + (y mod k - 1)" by simp
  have "(y - 1) div k = y div k"
    by (rule int_div_pos_eq [OF eq pos lt])
  with False show ?thesis by simp
qed

lemma mod_100_4: "(y::int) mod 100 = 0 \<Longrightarrow> y mod 4 = 0"
proof -
  assume "y mod 100 = 0"
  then have "100 dvd y" by (simp only: mod_eq_0_iff_dvd)
  moreover have "(4::int) dvd 100" by simp
  ultimately have "4 dvd y" using dvd_trans by blast
  then show ?thesis by (simp only: mod_eq_0_iff_dvd)
qed

lemma mod_400_100: "(y::int) mod 400 = 0 \<Longrightarrow> y mod 100 = 0"
proof -
  assume "y mod 400 = 0"
  then have "400 dvd y" by (simp only: mod_eq_0_iff_dvd)
  moreover have "(100::int) dvd 400" by simp
  ultimately have "100 dvd y" using dvd_trans by blast
  then show ?thesis by (simp only: mod_eq_0_iff_dvd)
qed

lemma leap_arith:
  fixes a b c :: int
  assumes a: "a = (if p4 then 1 else 0)" and b: "b = (if p100 then 1 else 0)"
    and c: "c = (if p400 then 1 else 0)" and i: "p100 \<longrightarrow> p4" and j: "p400 \<longrightarrow> p100"
  shows "a - b + c = (if p4 \<and> (\<not> p100 \<or> p400) then 1 else 0)"
  unfolding a b c using i j by (cases p4; cases p100; cases p400; simp)

lemma days_before_year_diff:
  "days_before_year (y + 1) =
     days_before_year y + 365 + ((y div 4 - (y - 1) div 4) - (y div 100 - (y - 1) div 100)
       + (y div 400 - (y - 1) div 400))"
  unfolding days_before_year_def by (simp only: add_diff_cancel_right') (simp only: algebra_simps)

lemma days_before_year_step:
  "days_before_year (y + 1) = days_before_year y + 365 + (if is_leap y then 1 else 0)"
proof -
  have "(y div 4 - (y - 1) div 4) - (y div 100 - (y - 1) div 100) + (y div 400 - (y - 1) div 400)
        = (if y mod 4 = 0 \<and> (\<not> y mod 100 = 0 \<or> y mod 400 = 0) then 1 else 0)"
  proof (rule leap_arith)
    show "y div 4 - (y - 1) div 4 = (if y mod 4 = 0 then 1 else 0)" by (rule div_step) simp
    show "y div 100 - (y - 1) div 100 = (if y mod 100 = 0 then 1 else 0)" by (rule div_step) simp
    show "y div 400 - (y - 1) div 400 = (if y mod 400 = 0 then 1 else 0)" by (rule div_step) simp
    show "y mod 100 = 0 \<longrightarrow> y mod 4 = 0" by (rule impI) (rule mod_100_4)
    show "y mod 400 = 0 \<longrightarrow> y mod 100 = 0" by (rule impI) (rule mod_400_100)
  qed
  then show ?thesis
    by (simp only: days_before_year_diff is_leap_def)
qed

lemma days_before_year_mono: "y \<le> y' \<Longrightarrow> days_before_year y \<le> days_before_year y'"
proof (induction y' rule: int_ge_induct)
  case base
  then show ?case by simp
next
  case (step i)
  have "days_before_year i \<le> days_before_year (i + 1)"
    by (simp only: days_before_year_step) simp
  with step.IH show ?case by linarith
qed

lemma days_in_month_pos: "1 \<le> days_in_month y m"
  by (simp add: days_in_month_def)

lemma month_cases:
  assumes "1 \<le> m" and "m \<le> 12"
  shows "m = 1 \<or> m = 2 \<or> m = 3 \<or> m = 4 \<or> m = 5 \<or> m = 6 \<or> m = 7 \<or> m = 8 \<or> m = 9 \<or>
         m = 10 \<or> m = 11 \<or> m = (12::nat)"
proof -
  have "m \<in> set [1..<13]" using assms by simp
  also have "[1..<13] = [1,2,3,4,5,6,7,8,9,10,11,12::nat]" by (simp add: upt_rec)
  finally show ?thesis by simp
qed

lemma days_before_month_values:
  "days_before_month y 1 = 0"
  "days_before_month y 2 = 31"
  "days_before_month y 3 = 59 + (if is_leap y then 1 else 0)"
  "days_before_month y 4 = 90 + (if is_leap y then 1 else 0)"
  "days_before_month y 5 = 120 + (if is_leap y then 1 else 0)"
  "days_before_month y 6 = 151 + (if is_leap y then 1 else 0)"
  "days_before_month y 7 = 181 + (if is_leap y then 1 else 0)"
  "days_before_month y 8 = 212 + (if is_leap y then 1 else 0)"
  "days_before_month y 9 = 243 + (if is_leap y then 1 else 0)"
  "days_before_month y 10 = 273 + (if is_leap y then 1 else 0)"
  "days_before_month y 11 = 304 + (if is_leap y then 1 else 0)"
  "days_before_month y 12 = 334 + (if is_leap y then 1 else 0)"
  "days_before_month y (Suc 0) = 0"
  "days_before_month y (Suc (Suc 0)) = 31"
  by (simp_all add: days_before_month_def)

lemma days_in_month_values:
  "days_in_month y 1 = 31"
  "days_in_month y 2 = (if is_leap y then 29 else 28)"
  "days_in_month y 3 = 31"
  "days_in_month y 4 = 30"
  "days_in_month y 5 = 31"
  "days_in_month y 6 = 30"
  "days_in_month y 7 = 31"
  "days_in_month y 8 = 31"
  "days_in_month y 9 = 30"
  "days_in_month y 10 = 31"
  "days_in_month y 11 = 30"
  "days_in_month y 12 = 31"
  "days_in_month y (Suc 0) = 31"
  by (simp_all add: days_in_month_def)

lemma days_before_month_step:
  assumes "1 \<le> m" and "m < 12"
  shows "days_before_month y (m + 1) = days_before_month y m + int (days_in_month y m)"
proof -
  from assms have "m \<le> 12" by simp
  from month_cases [OF assms(1) this] assms(2)
  have "m = 1 \<or> m = 2 \<or> m = 3 \<or> m = 4 \<or> m = 5 \<or> m = 6 \<or> m = 7 \<or> m = 8 \<or>
      m = 9 \<or> m = 10 \<or> m = 11"
    by simp
  then show ?thesis
    by (elim disjE) (simp_all add: days_before_month_values days_in_month_values)
qed

lemma days_before_month_nonneg: "0 \<le> days_before_month y m"
  by (simp add: days_before_month_def)

lemma days_before_month_mono:
  assumes "1 \<le> m" and "m \<le> m'" and "m' \<le> 12"
  shows "days_before_month y m \<le> days_before_month y m'"
  using assms(2,3)
proof (induction m' rule: dec_induct)
  case base
  then show ?case by simp
next
  case (step n)
  have "days_before_month y (n + 1) = days_before_month y n + int (days_in_month y n)"
    using assms(1) step by (intro days_before_month_step) linarith+
  with step show ?case by simp
qed

lemma month_end_bound:
  assumes "1 \<le> m" and "m \<le> 12"
  shows "days_before_month y m + int (days_in_month y m) \<le> 365 + (if is_leap y then 1 else 0)"
proof (cases "m = 12")
  case True
  then show ?thesis by (simp add: days_before_month_values days_in_month_values)
next
  case False
  with assms have lt: "m < 12" by simp
  have "days_before_month y m + int (days_in_month y m) = days_before_month y (m + 1)"
    using days_before_month_step [OF assms(1) lt] by simp
  also have "\<dots> \<le> days_before_month y 12"
    using lt by (intro days_before_month_mono) linarith+
  also have "\<dots> \<le> 365 + (if is_leap y then 1 else 0)"
    by (simp add: days_before_month_values)
  finally show ?thesis .
qed

lemma date_eqI: "year a = year b \<Longrightarrow> month a = month b \<Longrightarrow> day a = day b \<Longrightarrow> a = (b::date)"
  by (cases a, cases b) simp

lemma date_lt_cases:
  assumes "date_lt a b"
  shows "year a < year b \<or> (year a = year b \<and> month a < month b) \<or>
         (year a = year b \<and> month a = month b \<and> day a < day b)"
  using assms unfolding date_lt_def date_key_def less_prod_simp by linarith

lemma toordinal_strict_mono:
  assumes a: "valid_date a" and b: "valid_date b" and lt: "date_lt a b"
  shows "toordinal a < toordinal b"
proof -
  from date_lt_cases [OF lt] consider "year a < year b"
    | "year a = year b" "month a < month b"
    | "year a = year b" "month a = month b" "day a < day b"
    by blast
  then show ?thesis
  proof cases
    case 1
    have "toordinal a \<le> days_before_year (year a) + (365 + (if is_leap (year a) then 1 else 0))"
    proof -
      have "days_before_month (year a) (month a) + int (day a) \<le>
            days_before_month (year a) (month a) + int (days_in_month (year a) (month a))"
        using a by (simp add: valid_date_def)
      also have "\<dots> \<le> 365 + (if is_leap (year a) then 1 else 0)"
        using a by (intro month_end_bound) (simp_all add: valid_date_def)
      finally show ?thesis by (simp add: toordinal_def)
    qed
    also have "\<dots> = days_before_year (year a + 1)"
      by (simp only: days_before_year_step)
    also have "\<dots> \<le> days_before_year (year b)"
      using 1 by (intro days_before_year_mono) simp
    also have "\<dots> < toordinal b"
      using b days_before_month_nonneg [of "year b" "month b"]
      by (simp add: toordinal_def valid_date_def)
    finally show ?thesis .
  next
    case 2
    have lt12: "month a < 12" using 2(2) b by (simp add: valid_date_def)
    have a1: "1 \<le> month a" using a by (simp add: valid_date_def)
    have "days_before_month (year a) (month a) + int (day a) \<le>
          days_before_month (year a) (month a) + int (days_in_month (year a) (month a))"
      using a by (simp add: valid_date_def)
    also have "\<dots> = days_before_month (year a) (month a + 1)"
      using days_before_month_step [OF a1 lt12] by simp
    also have "\<dots> \<le> days_before_month (year a) (month b)"
      using 2(2) b by (intro days_before_month_mono) (simp_all add: valid_date_def)
    also have "\<dots> < days_before_month (year a) (month b) + int (day b)"
      using b by (simp add: valid_date_def)
    finally show ?thesis using 2(1) by (simp add: toordinal_def)
  next
    case 3
    then show ?thesis by (simp add: toordinal_def)
  qed
qed

lemma date_trichotomy: "date_lt a b \<or> a = b \<or> date_lt b a"
proof -
  have "date_key a < date_key b \<or> date_key a = date_key b \<or> date_key b < date_key a"
    by (rule less_linear)
  moreover have "a = b" if "date_key a = date_key b"
    using that by (intro date_eqI) (simp_all add: date_key_def)
  ultimately show ?thesis unfolding date_lt_def by blast
qed

lemma date_le_iff: "date_le a b = (date_lt a b \<or> a = b)"
proof -
  have "a = b" if "date_key a = date_key b"
    using that by (intro date_eqI) (simp_all add: date_key_def)
  then show ?thesis unfolding date_le_def date_lt_def le_less by blast
qed

lemma toordinal_mono:
  "valid_date a \<Longrightarrow> valid_date b \<Longrightarrow> date_le a b \<Longrightarrow> toordinal a \<le> toordinal b"
  using toordinal_strict_mono [of a b] unfolding date_le_iff by fastforce

lemma toordinal_inj:
  assumes "valid_date a" and "valid_date b" and "toordinal a = toordinal b"
  shows "a = b"
  using date_trichotomy [of a b] toordinal_strict_mono [of a b] toordinal_strict_mono [of b a] assms
  by fastforce

lemma valid_next_day: "valid_date d \<Longrightarrow> valid_date (next_day d)"
  using days_in_month_pos by (simp add: valid_date_def next_day_def)

lemma toordinal_next_day:
  assumes "valid_date d"
  shows "toordinal (next_day d) = toordinal d + 1"
proof -
  have m1: "1 \<le> month d" and m12: "month d \<le> 12"
    and dd: "day d \<le> days_in_month (year d) (month d)"
    using assms by (simp_all add: valid_date_def)
  consider "day d < days_in_month (year d) (month d)"
    | "day d = days_in_month (year d) (month d)" "month d < 12"
    | "day d = days_in_month (year d) (month d)" "month d = 12"
    using dd m12 by linarith
  then show ?thesis
  proof cases
    case 1
    then show ?thesis by (simp add: next_day_def toordinal_def)
  next
    case 2
    then show ?thesis
      using days_before_month_step [OF m1 2(2), of "year d"]
      by (simp add: next_day_def toordinal_def)
  next
    case 3
    have e: "days_before_year (year d + 1) =
             days_before_year (year d) + 365 + (if is_leap (year d) then 1 else 0)"
      by (rule days_before_year_step)
    have n: "next_day d = \<lparr>year = year d + 1, month = 1, day = 1\<rparr>"
      using 3 by (simp add: next_day_def)
    have "toordinal (next_day d) = days_before_year (year d + 1) + 1"
      by (simp add: n toordinal_def days_before_month_values)
    also have "\<dots> = days_before_year (year d) + (334 + (if is_leap (year d) then 1 else 0)) + 31 + 1"
      by (simp only: e)
    also have "\<dots> = toordinal d + 1"
      using 3 by (simp add: toordinal_def days_before_month_values days_in_month_values)
    finally show ?thesis .
  qed
qed

subsection \<open>Period labels\<close>

lemma next_day_gt: "date_lt d (next_day d)"
  by (simp add: date_lt_def date_key_def next_day_def)

lemma next_day_day_ok:
  "day (next_day d) \<le> days_in_month (year (next_day d)) (month (next_day d))"
  using days_in_month_pos by (simp add: next_day_def)

lemma quarter_month_ge: "(m::nat) \<le> ((m - 1) div 3) * 3 + 3"
  by arith

lemma period_end_ge:
  assumes "day d \<le> days_in_month (year d) (month d)"
  shows "date_le d (period_end f d)"
proof (cases f)
  case Day
  then show ?thesis by (simp add: date_le_def)
next
  case MonthEnd
  then show ?thesis using assms by (simp add: date_le_def date_key_def)
next
  case QuarterEnd
  show ?thesis
  proof (cases "month d = ((month d - 1) div 3) * 3 + 3")
    case True
    then show ?thesis using assms QuarterEnd by (simp add: date_le_def date_key_def Let_def)
  next
    case False
    with quarter_month_ge [of "month d"] have "month d < ((month d - 1) div 3) * 3 + 3"
      by linarith
    then show ?thesis using QuarterEnd by (simp add: date_le_def date_key_def Let_def)
  qed
qed

lemma date_lt_le_trans: "date_lt a b \<Longrightarrow> date_le b c \<Longrightarrow> date_lt a c"
  unfolding date_le_def date_lt_def by (rule less_le_trans)

lemma step_gt: "date_lt l (period_end f (next_day l))"
  using next_day_gt period_end_ge [OF next_day_day_ok] by (rule date_lt_le_trans)

lemma date_le_refl: "date_le a a"
  by (simp add: date_le_def)

lemma date_lt_imp_le: "date_lt a b \<Longrightarrow> date_le a b"
  unfolding date_le_def date_lt_def by (rule less_imp_le)

lemma label_seq_lower: "x \<in> set (label_seq f n l) \<Longrightarrow> date_le l x"
proof (induction n arbitrary: l)
  case 0
  then show ?case by (simp add: date_le_refl)
next
  case (Suc n)
  from Suc.prems consider "x = l" | "x \<in> set (label_seq f n (period_end f (next_day l)))"
    by auto
  then show ?case
  proof cases
    case 1
    then show ?thesis by (simp add: date_le_refl)
  next
    case 2
    from Suc.IH [OF 2] show ?thesis
      using step_gt [of l f] by (blast intro: date_le_trans date_lt_imp_le)
  qed
qed

lemma label_seq_increasing: "sorted_wrt date_lt (label_seq f n l)"
proof (induction n arbitrary: l)
  case 0
  then show ?case by simp
next
  case (Suc n)
  have "date_lt l x" if "x \<in> set (label_seq f n (period_end f (next_day l)))" for x
    using step_gt [of l f] label_seq_lower [OF that] by (rule date_lt_le_trans)
  then show ?case using Suc.IH by simp
qed

lemma grouper_bins_increasing: "sorted_wrt date_lt (grouper_bins f ds)"
  by (simp add: grouper_bins_def Let_def label_seq_increasing split: list.splits)

lemma ts_lt_midnight: "ts_lt (midnight a) (midnight b) = date_lt a b"
  by (simp add: ts_lt_def ts_key_def midnight_def date_lt_def)

lemma time_data_keys:
  "map fst (time_data ops view agg) =
     map midnight (grouper_bins (freq_map agg) (map (\<lambda>r. ts_date (order_date r)) view))"
  by (simp add: time_data_def Let_def comp_def)

lemma time_data_increasing: "sorted_wrt ts_lt (map fst (time_data ops view agg))"
  by (simp only: time_data_keys sorted_wrt_map ts_lt_midnight grouper_bins_increasing)

lemma time_data_distinct: "distinct (map fst (time_data ops view agg))"
proof -
  have "sorted_wrt (<) (map ts_key (map fst (time_data ops view agg)))"
    using time_data_increasing [of ops view agg] by (simp add: sorted_wrt_map ts_lt_def)
  then have "distinct (map ts_key (map fst (time_data ops view agg)))"
    by (simp add: strict_sorted_iff)
  then show ?thesis by (simp only: distinct_map)
qed

lemma time_data_row:
  "(k, v) \<in> set (time_data ops view agg) \<Longrightarrow>
   v = grouped_sum ops (map revenue (bin_rows (freq_map agg) view (ts_date k)))"
  by (auto simp: time_data_def Let_def bin_revenue_def midnight_def)

lemma valid_period_end:
  assumes v: "valid_date d"
  shows "valid_date (period_end f d)"
proof (cases f)
  case Day
  then show ?thesis using v by simp
next
  case MonthEnd
  then show ?thesis
    using v days_in_month_pos [of "year d" "month d"] by (simp add: valid_date_def)
next
  case QuarterEnd
  let ?qm = "((month d - 1) div 3) * 3 + 3"
  have lo: "1 \<le> ?qm" by simp
  have "(month d - 1) div 3 \<le> 3" using v unfolding valid_date_def by linarith
  then have hi: "?qm \<le> 12" by linarith
  show ?thesis
    using v lo hi QuarterEnd days_in_month_pos [of "year d" ?qm]
    by (simp add: valid_date_def Let_def)
qed

lemma quarter_month_idem: "(((m::nat) - 1) div 3 * 3 + 3 - 1) div 3 = (m - 1) div 3"
  by simp

lemma period_end_idem: "period_end f (period_end f d) = period_end f d"
proof (cases f)
  case QuarterEnd
  show ?thesis
    unfolding QuarterEnd period_end.simps Let_def date.simps quarter_month_idem ..
qed simp_all

lemma period_index_end: "period_index f (period_end f d) = period_index f d"
proof (cases f)
  case QuarterEnd
  show ?thesis
    unfolding QuarterEnd period_end.simps period_index.simps Let_def date.simps
      quarter_month_idem ..
qed simp_all

lemma period_index_mono:
  assumes a: "valid_date a" and b: "valid_date b" and le: "date_le a b"
  shows "period_index f a \<le> period_index f b"
proof (cases f)
  case Day
  then show ?thesis using toordinal_mono [OF a b le] by simp
next
  case MonthEnd
  from le have "a = b \<or> date_lt a b" by (auto simp: date_le_iff)
  then show ?thesis
  proof
    assume "a = b"
    then show ?thesis by simp
  next
    assume "date_lt a b"
    from date_lt_cases [OF this] a b show ?thesis
      unfolding MonthEnd period_index.simps valid_date_def by linarith
  qed
next
  case QuarterEnd
  from le have "a = b \<or> date_lt a b" by (auto simp: date_le_iff)
  then show ?thesis
  proof
    assume "a = b"
    then show ?thesis by simp
  next
    assume "date_lt a b"
    from date_lt_cases [OF this]
    have "year a < year b \<or> (year a = year b \<and> month a \<le> month b)" by linarith
    then show ?thesis
    proof
      assume y: "year a < year b"
      have "(month a - 1) div 3 \<le> 3" using a unfolding valid_date_def by linarith
      with y show ?thesis unfolding QuarterEnd period_index.simps by linarith
    next
      assume "year a = year b \<and> month a \<le> month b"
      then have "year a = year b" and "(month a - 1) div 3 \<le> (month b - 1) div 3"
        by (simp_all add: div_le_mono diff_le_mono)
      then show ?thesis unfolding QuarterEnd period_index.simps by linarith
    qed
  qed
qed

lemma period_index_inj:
  assumes a: "valid_date a" and b: "valid_date b"
    and eq: "period_index f a = period_index f b"
  shows "period_end f a = period_end f b"
proof (cases f)
  case Day
  then show ?thesis using toordinal_inj [OF a b] eq by simp
next
  case MonthEnd
  have "int (month a - 1) = int (month a) - 1" and "int (month b - 1) = int (month b) - 1"
    using a b by (simp_all add: valid_date_def)
  moreover have "1 \<le> month a" "month a \<le> 12" "1 \<le> month b" "month b \<le> 12"
    using a b by (simp_all add: valid_date_def)
  moreover have "year a * 12 + int (month a - 1) = year b * 12 + int (month b - 1)"
    using eq by (simp add: MonthEnd)
  ultimately have "\<not> year a < year b" and "\<not> year b < year a"
    by linarith+
  then have y: "year a = year b" by simp
  have "int (month a - 1) = int (month b - 1)"
    using eq y by (simp add: MonthEnd)
  moreover have "1 \<le> month a" "1 \<le> month b"
    using a b by (simp_all add: valid_date_def)
  ultimately have "month a = month b" by linarith
  with y have "year a = year b \<and> month a = month b" by simp
  then show ?thesis using MonthEnd by simp
next
  case QuarterEnd
  have qa: "(month a - 1) div 3 \<le> 3" using a unfolding valid_date_def by linarith
  have qb: "(month b - 1) div 3 \<le> 3" using b unfolding valid_date_def by linarith
  define ka kb where "ka = (month a - 1) div 3" and "kb = (month b - 1) div 3"
  have k: "year a * 4 + int ka = year b * 4 + int kb" "ka \<le> 3" "kb \<le> 3"
    using eq qa qb by (simp_all add: QuarterEnd ka_def kb_def)
  then have "\<not> year a < year b" and "\<not> year b < year a"
    by linarith+
  then have y: "year a = year b" by simp
  with k(1) have "ka = kb" by simp
  then show ?thesis using y QuarterEnd by (simp add: Let_def ka_def kb_def)
qed

lemma period_index_step:
  assumes v: "valid_date l" and e: "period_end f l = l"
  shows "period_index f (period_end f (next_day l)) = period_index f l + 1"
proof (cases f)
  case Day
  then show ?thesis using toordinal_next_day [OF v] by simp
next
  case MonthEnd
  from e MonthEnd have d: "day l = days_in_month (year l) (month l)"
    by (cases l) (simp add: date_eqI)
  have m: "1 \<le> month l" "month l \<le> 12" using v by (simp_all add: valid_date_def)
  show ?thesis
  proof (cases "month l < 12")
    case True
    then show ?thesis using d m MonthEnd by (simp add: next_day_def)
  next
    case False
    with m have "month l = 12" by simp
    then show ?thesis using d MonthEnd by (simp add: next_day_def)
  qed
next
  case QuarterEnd
  let ?qm = "((month l - 1) div 3) * 3 + 3"
  have "period_end QuarterEnd l = \<lparr>year = year l, month = ?qm, day = days_in_month (year l) ?qm\<rparr>"
    by (simp add: Let_def)
  with e QuarterEnd have "l = \<lparr>year = year l, month = ?qm, day = days_in_month (year l) ?qm\<rparr>"
    by simp
  then have "month l = month \<lparr>year = year l, month = ?qm, day = days_in_month (year l) ?qm\<rparr>"
    and "day l = day \<lparr>year = year l, month = ?qm, day = days_in_month (year l) ?qm\<rparr>"
    by simp_all
  then have mq: "month l = ?qm" and d: "day l = days_in_month (year l) (month l)"
    by simp_all
  have m: "1 \<le> month l" "month l \<le> 12" using v by (simp_all add: valid_date_def)
  show ?thesis
  proof (cases "month l < 12")
    case True
    have "(month l + 1 - 1) div 3 = (month l - 1) div 3 + 1" using mq m by linarith
    then show ?thesis using True d QuarterEnd by (simp add: next_day_def Let_def)
  next
    case False
    with m have "month l = 12" by simp
    then show ?thesis using d QuarterEnd by (simp add: next_day_def Let_def)
  qed
qed

lemma label_seq_reach:
  assumes "valid_date l" and "period_end f l = l" and "i \<le> n"
  shows "\<exists>x \<in> set (label_seq f n l). valid_date x \<and> period_end f x = x \<and>
           period_index f x = period_index f l + int i"
  using assms
proof (induction n arbitrary: l i)
  case 0
  then show ?case by simp
next
  case (Suc n)
  show ?case
  proof (cases i)
    case 0
    then show ?thesis using Suc.prems by simp
  next
    case (Suc j)
    let ?l' = "period_end f (next_day l)"
    have v': "valid_date ?l'"
      using Suc.prems(1) by (intro valid_period_end valid_next_day)
    have e': "period_end f ?l' = ?l'" by (rule period_end_idem)
    have j: "j \<le> n" using Suc Suc.prems(3) by simp
    from Suc.IH [OF v' e' j] obtain x where x: "x \<in> set (label_seq f n ?l')"
      "valid_date x" "period_end f x = x" "period_index f x = period_index f ?l' + int j"
      by blast
    have "period_index f x = period_index f l + int i"
      using x(4) period_index_step [OF Suc.prems(1,2)] Suc by simp
    with x show ?thesis by auto
  qed
qed

lemma earliest_le_start: "date_le (earliest d ds) d"
proof (induction ds arbitrary: d)
  case Nil
  then show ?case by (simp add: date_le_refl)
next
  case (Cons y ds)
  let ?m = "if date_lt y d then y else d"
  have "date_le (earliest ?m ds) ?m" by (rule Cons.IH)
  moreover have "date_le ?m d" by (simp add: date_le_refl date_lt_imp_le)
  ultimately have "date_le (earliest ?m ds) d" by (rule date_le_trans)
  then show ?case by simp
qed

lemma earliest_le: "x \<in> set (d # ds) \<Longrightarrow> date_le (earliest d ds) x"
proof (induction ds arbitrary: d)
  case Nil
  then show ?case by (simp add: date_le_refl)
next
  case (Cons y ds)
  let ?m = "if date_lt y d then y else d"
  have md: "date_le ?m d" by (simp add: date_le_refl date_lt_imp_le)
  have my: "date_le ?m y"
    using date_trichotomy [of y d] by (auto simp: date_le_refl date_lt_imp_le)
  have start: "date_le (earliest ?m ds) ?m" by (rule earliest_le_start)
  from Cons.prems consider "x = d" | "x = y" | "x \<in> set ds" by auto
  then have "date_le (earliest ?m ds) x"
  proof cases
    case 1
    then show ?thesis using date_le_trans [OF start md] by simp
  next
    case 2
    then show ?thesis using date_le_trans [OF start my] by simp
  next
    case 3
    then show ?thesis by (intro Cons.IH) simp
  qed
  then show ?case by simp
qed

lemma latest_ge_start: "date_le d (latest d ds)"
proof (induction ds arbitrary: d)
  case Nil
  then show ?case by (simp add: date_le_refl)
next
  case (Cons y ds)
  let ?m = "if date_lt d y then y else d"
  have "date_le d ?m" by (simp add: date_le_refl date_lt_imp_le)
  moreover have "date_le ?m (latest ?m ds)" by (rule Cons.IH)
  ultimately have "date_le d (latest ?m ds)" by (rule date_le_trans)
  then show ?case by simp
qed

lemma latest_ge: "x \<in> set (d # ds) \<Longrightarrow> date_le x (latest d ds)"
proof (induction ds arbitrary: d)
  case Nil
  then show ?case by (simp add: date_le_refl)
next
  case (Cons y ds)
  let ?m = "if date_lt d y then y else d"
  have md: "date_le d ?m" by (simp add: date_le_refl date_lt_imp_le)
  have my: "date_le y ?m"
    using date_trichotomy [of d y] by (auto simp: date_le_refl date_lt_imp_le)
  have start: "date_le ?m (latest ?m ds)" by (rule latest_ge_start)
  from Cons.prems consider "x = d" | "x = y" | "x \<in> set ds" by auto
  then have "date_le x (latest ?m ds)"
  proof cases
    case 1
    then show ?thesis using date_le_trans [OF md start] by simp
  next
    case 2
    then show ?thesis using date_le_trans [OF my start] by simp
  next
    case 3
    then show ?thesis by (intro Cons.IH) simp
  qed
  then show ?case by simp
qed

lemma earliest_mem: "earliest d ds \<in> set (d # ds)"
  by (induction ds arbitrary: d) auto

lemma latest_mem: "latest d ds \<in> set (d # ds)"
  by (induction ds arbitrary: d) auto

lemma grouper_bins_cover:
  assumes valid: "\<forall>x \<in> set ds. valid_date x" and mem: "d \<in> set ds"
  shows "period_end f d \<in> set (grouper_bins f ds)"
proof -
  from mem obtain d0 ds' where ds: "ds = d0 # ds'" by (cases ds) auto
  let ?lo = "earliest d0 ds'" and ?hi = "latest d0 ds'"
  let ?first = "period_end f ?lo" and ?last = "period_end f ?hi"
  let ?n = "nat (period_index f ?last - period_index f ?first)"
  have bins: "grouper_bins f ds = label_seq f ?n ?first"
    by (simp add: grouper_bins_def ds Let_def)
  have vd: "valid_date d" using valid mem by blast
  have vlo: "valid_date ?lo" using valid earliest_mem [of d0 ds'] ds by blast
  have vhi: "valid_date ?hi" using valid latest_mem [of d0 ds'] ds by blast
  have lo: "period_index f ?lo \<le> period_index f d"
    using vlo vd earliest_le [of d d0 ds'] mem ds by (intro period_index_mono) simp_all
  have hi: "period_index f d \<le> period_index f ?hi"
    using vd vhi latest_ge [of d d0 ds'] mem ds by (intro period_index_mono) simp_all
  let ?i = "nat (period_index f d - period_index f ?lo)"
  have i: "?i \<le> ?n" using lo hi by (simp add: period_index_end)
  from label_seq_reach [OF valid_period_end [OF vlo] period_end_idem i]
  obtain x where x: "x \<in> set (label_seq f ?n ?first)" "valid_date x" "period_end f x = x"
    "period_index f x = period_index f ?first + int ?i"
    by blast
  have "period_index f x = period_index f d"
    using x(4) lo by (simp add: period_index_end)
  from period_index_inj [OF x(2) vd this] x(3) have "x = period_end f d" by simp
  with x(1) bins show ?thesis by simp
qed

lemma date_le_antisym: "date_le a b \<Longrightarrow> date_le b a \<Longrightarrow> a = b"
  using date_lt_not_le [of a b] by (auto simp: date_le_iff)

lemma next_day_successor:
  assumes a: "valid_date a" and b: "valid_date b" and lt: "date_lt a (next_day b)"
  shows "date_le a b"
proof (rule ccontr)
  assume "\<not> date_le a b"
  then have "date_lt b a" using date_trichotomy [of a b] by (auto simp: date_le_iff)
  then have "toordinal b < toordinal a" by (rule toordinal_strict_mono [OF b a])
  moreover have "toordinal a < toordinal (next_day b)"
    using a valid_next_day [OF b] lt by (rule toordinal_strict_mono)
  ultimately show False using toordinal_next_day [OF b] by simp
qed

lemma label_seq_members:
  assumes "valid_date l0" and "period_end f l0 = l0" and "l \<in> set (label_seq f n l0)"
  shows "valid_date l \<and> period_end f l = l \<and>
         period_index f l \<le> period_index f l0 + int n \<and>
         (l = l0 \<or> (\<exists>l'. valid_date l' \<and> period_end f l' = l' \<and> date_le l0 l' \<and>
                         period_index f l = period_index f l' + 1 \<and>
                         l = period_end f (next_day l')))"
  using assms
proof (induction n arbitrary: l0)
  case 0
  then show ?case by simp
next
  case (Suc n)
  let ?s = "period_end f (next_day l0)"
  from Suc.prems(3) consider "l = l0" | "l \<in> set (label_seq f n ?s)" by auto
  then show ?case
  proof cases
    case 1
    then show ?thesis using Suc.prems by simp
  next
    case 2
    have vs: "valid_date ?s" using Suc.prems(1) by (intro valid_period_end valid_next_day)
    have es: "period_end f ?s = ?s" by (rule period_end_idem)
    have ix: "period_index f ?s = period_index f l0 + 1"
      using Suc.prems(1,2) by (rule period_index_step)
    have le: "date_le l0 ?s" using step_gt [of l0 f] by (rule date_lt_imp_le)
    from Suc.IH [OF vs es 2] have
      v: "valid_date l" and e: "period_end f l = l"
      and i: "period_index f l \<le> period_index f ?s + int n"
      and o: "l = ?s \<or> (\<exists>l'. valid_date l' \<and> period_end f l' = l' \<and> date_le ?s l' \<and>
                             period_index f l = period_index f l' + 1 \<and>
                             l = period_end f (next_day l'))"
      by blast+
    have i': "period_index f l \<le> period_index f l0 + int (Suc n)" using i ix by simp
    from o have "\<exists>l'. valid_date l' \<and> period_end f l' = l' \<and> date_le l0 l' \<and>
                      period_index f l = period_index f l' + 1 \<and>
                      l = period_end f (next_day l')"
    proof
      assume "l = ?s"
      then show ?thesis using Suc.prems(1,2) ix date_le_refl [of l0] by blast
    next
      assume "\<exists>l'. valid_date l' \<and> period_end f l' = l' \<and> date_le ?s l' \<and>
                   period_index f l = period_index f l' + 1 \<and> l = period_end f (next_day l')"
      then obtain l' where "valid_date l'" "period_end f l' = l'" "date_le ?s l'"
        "period_index f l = period_index f l' + 1" "l = period_end f (next_day l')"
        by blast
      moreover from this(3) le have "date_le l0 l'" by (blast intro: date_le_trans)
      ultimately show ?thesis by blast
    qed
    with v e i' show ?thesis by blast
  qed
qed

lemma span_bounds:
  assumes lo: "lo \<in> set (d0 # ds')" "\<forall>d \<in> set (d0 # ds'). date_le lo d"
    and hi: "hi \<in> set (d0 # ds')" "\<forall>d \<in> set (d0 # ds'). date_le d hi"
  shows "earliest d0 ds' = lo" and "latest d0 ds' = hi"
proof -
  show "earliest d0 ds' = lo"
    using earliest_le [OF lo(1)] lo(2) earliest_mem [of d0 ds'] by (blast intro: date_le_antisym)
  show "latest d0 ds' = hi"
    using latest_ge [OF hi(1)] hi(2) latest_mem [of d0 ds'] by (blast intro: date_le_antisym)
qed

lemma grouper_bins_span:
  assumes valid: "\<forall>x \<in> set ds. valid_date x"
    and lo: "lo \<in> set ds" "\<forall>d \<in> set ds. date_le lo d"
    and hi: "hi \<in> set ds" "\<forall>d \<in> set ds. date_le d hi"
  shows "set (grouper_bins f ds) =
         period_end f ` {x. valid_date x \<and> date_le lo x \<and> date_le x hi}"
proof -
  from lo(1) obtain d0 ds' where ds: "ds = d0 # ds'" by (cases ds) auto
  have elo: "earliest d0 ds' = lo" and ehi: "latest d0 ds' = hi"
    using span_bounds [of lo d0 ds' hi] lo hi unfolding ds by blast+
  let ?first = "period_end f lo" and ?last = "period_end f hi"
  let ?n = "nat (period_index f ?last - period_index f ?first)"
  have bins: "grouper_bins f ds = label_seq f ?n ?first"
    by (simp add: grouper_bins_def ds Let_def elo ehi)
  have vlo: "valid_date lo" and vhi: "valid_date hi" using valid lo(1) hi(1) by blast+
  have lohi: "date_le lo hi" using lo(2) hi(1) by blast
  have idx: "period_index f lo \<le> period_index f hi"
    using vlo vhi lohi by (rule period_index_mono)
  have n: "int ?n = period_index f hi - period_index f lo"
    using idx by (simp add: period_index_end)
  have vfirst: "valid_date ?first" using vlo by (rule valid_period_end)
  have efirst: "period_end f ?first = ?first" by (rule period_end_idem)
  have lofirst: "date_le lo ?first"
    using vlo by (intro period_end_ge) (simp add: valid_date_def)
  show ?thesis
  proof (intro set_eqI iffI)
    fix l
    assume "l \<in> set (grouper_bins f ds)"
    then have mem: "l \<in> set (label_seq f ?n ?first)" by (simp only: bins)
    from label_seq_members [OF vfirst efirst mem] have
      i: "period_index f l \<le> period_index f ?first + int ?n"
      and o: "l = ?first \<or> (\<exists>l'. valid_date l' \<and> period_end f l' = l' \<and> date_le ?first l' \<and>
                               period_index f l = period_index f l' + 1 \<and>
                               l = period_end f (next_day l'))"
      by blast+
    from o show "l \<in> period_end f ` {x. valid_date x \<and> date_le lo x \<and> date_le x hi}"
    proof
      assume "l = ?first"
      then show ?thesis using vlo lohi date_le_refl [of lo] by blast
    next
      assume "\<exists>l'. valid_date l' \<and> period_end f l' = l' \<and> date_le ?first l' \<and>
                   period_index f l = period_index f l' + 1 \<and> l = period_end f (next_day l')"
      then obtain l' where l': "valid_date l'" "period_end f l' = l'" "date_le ?first l'"
        "period_index f l = period_index f l' + 1" "l = period_end f (next_day l')"
        by blast
      let ?x = "next_day l'"
      have vx: "valid_date ?x" using l'(1) by (rule valid_next_day)
      have "date_le lo l'" using lofirst l'(3) by (rule date_le_trans)
      then have lox: "date_le lo ?x"
        using next_day_gt [of l'] by (blast intro: date_le_trans date_lt_imp_le)
      have xhi: "date_le ?x hi"
      proof (rule ccontr)
        assume "\<not> date_le ?x hi"
        then have "date_lt hi ?x" using date_trichotomy [of ?x hi] by (auto simp: date_le_iff)
        then have "date_le hi l'" using vhi l'(1) by (intro next_day_successor)
        then have "period_index f hi \<le> period_index f l'"
          using vhi l'(1) by (intro period_index_mono)
        moreover have "period_index f l' + 1 \<le> period_index f hi"
          using i l'(4) n by (simp add: period_index_end)
        ultimately show False by simp
      qed
      show ?thesis using vx lox xhi l'(5) by blast
    qed
  next
    fix l
    assume "l \<in> period_end f ` {x. valid_date x \<and> date_le lo x \<and> date_le x hi}"
    then obtain x where x: "valid_date x" "date_le lo x" "date_le x hi" "l = period_end f x"
      by blast
    have xlo: "period_index f lo \<le> period_index f x"
      using vlo x(1,2) by (rule period_index_mono)
    have xhi: "period_index f x \<le> period_index f hi"
      using x(1) vhi x(3) by (rule period_index_mono)
    let ?i = "nat (period_index f x - period_index f lo)"
    have i: "?i \<le> ?n" using xlo xhi by (simp add: period_index_end)
    from label_seq_reach [OF vfirst efirst i]
    obtain y where y: "y \<in> set (label_seq f ?n ?first)" "valid_date y" "period_end f y = y"
      "period_index f y = period_index f ?first + int ?i"
      by blast
    have "period_index f y = period_index f x"
      using y(4) xlo by (simp add: period_index_end)
    from period_index_inj [OF y(2) x(1) this] y(3) have "y = period_end f x" by simp
    with y(1) bins x(4) show "l \<in> set (grouper_bins f ds)" by simp
  qed
qed

subsection \<open>The claims on periods\<close>

lemma scenario_valid: "\<forall>r \<in> set scenario_data. valid_date (ts_date (order_date r))"
  by (simp add: scenario_data_def scenario_csv_def load_data_def add_revenue_def midnight_def
      ymd_def valid_date_def days_in_month_def is_leap_def)

lemma scenario_daily_gap:
  "(midnight (ymd 2023 1 6), 0) \<in> set (time_data exact_ops scenario_data Journaliere) \<and>
   bin_rows (freq_map Journaliere) scenario_data (ymd 2023 1 6) = []"
  by code_simp

lemma scenario_monthly:
  "time_data exact_ops scenario_data Mensuelle =
     [(midnight (ymd 2023 1 31), 20), (midnight (ymd 2023 2 28), 50)]"
  by code_simp

lemma time_data_cover:
  assumes "\<forall>r \<in> set view. valid_date (ts_date (order_date r))" and "r \<in> set view"
  shows "\<exists>v. (midnight (period_end (freq_map agg) (ts_date (order_date r))), v)
               \<in> set (time_data ops view agg)"
proof -
  let ?ds = "map (\<lambda>r. ts_date (order_date r)) view"
  have "\<forall>x \<in> set ?ds. valid_date x" using assms(1) by simp
  moreover have "ts_date (order_date r) \<in> set ?ds" using assms(2) by simp
  ultimately have "period_end (freq_map agg) (ts_date (order_date r))
      \<in> set (grouper_bins (freq_map agg) ?ds)"
    by (rule grouper_bins_cover)
  then show ?thesis by (auto simp: time_data_def Let_def)
qed

text \<open>
  C8. As stated the claim fails: the table of revenue over time is not sparse. With orders
  on 2023-01-05 and 2023-02-10 and the daily period, it has a row for 2023-01-06, a day
  without any order, with revenue 0.
\<close>

theorem sparse_buckets_counterexample:
  "(midnight (ymd 2023 1 6), 0) \<in> set (time_data exact_ops scenario_data Journaliere) \<and>
   bin_rows (freq_map Journaliere) scenario_data (ymd 2023 1 6) = []"
  by (rule scenario_daily_gap)

text \<open>
  C8, amended. For every filtered view and each of the three periods, the keys of the
  table of revenue over time are strictly increasing, hence without duplicates, and the
  revenue of a row is the float sum of the revenue of the view's rows of its period, the
  float zero when the period holds no row. When the order dates are calendar dates, the
  table has a row for exactly the periods that hold a calendar day from the earliest
  order date to the latest one: every period of that span is present, with revenue zero
  when no order falls into it, and no other period is. The table of the empty view is
  empty.
\<close>

theorem time_data_buckets:
  "sorted_wrt ts_lt (map fst (time_data ops view agg)) \<and>
   distinct (map fst (time_data ops view agg)) \<and>
   (\<forall>k v. (k, v) \<in> set (time_data ops view agg) \<longrightarrow>
      v = grouped_sum ops (map revenue (bin_rows (freq_map agg) view (ts_date k))) \<and>
      (bin_rows (freq_map agg) view (ts_date k) = [] \<longrightarrow> v = fzero ops)) \<and>
   time_data ops [] agg = [] \<and>
   ((\<forall>r \<in> set view. valid_date (ts_date (order_date r))) \<longrightarrow>
      (\<forall>r \<in> set view. \<exists>v. (midnight (period_end (freq_map agg) (ts_date (order_date r))), v)
                               \<in> set (time_data ops view agg)) \<and>
      (\<forall>lo hi.
         lo \<in> (\<lambda>r. ts_date (order_date r)) ` set view \<and>
         hi \<in> (\<lambda>r. ts_date (order_date r)) ` set view \<and>
         (\<forall>r \<in> set view. date_le lo (ts_date (order_date r)) \<and>
                          date_le (ts_date (order_date r)) hi) \<longrightarrow>
         fst ` set (time_data ops view agg) =
           (\<lambda>x. midnight (period_end (freq_map agg) x)) `
             {x. valid_date x \<and> date_le lo x \<and> date_le x hi}))"
proof (intro conjI allI impI ballI)
  show "sorted_wrt ts_lt (map fst (time_data ops view agg))" by (rule time_data_increasing)
  show "distinct (map fst (time_data ops view agg))" by (rule time_data_distinct)
  show "time_data ops [] agg = []" by (simp add: time_data_def grouper_bins_def)
next
  fix k v
  assume "(k, v) \<in> set (time_data ops view agg)"
  then show v: "v = grouped_sum ops (map revenue (bin_rows (freq_map agg) view (ts_date k)))"
    by (rule time_data_row)
  assume "bin_rows (freq_map agg) view (ts_date k) = []"
  with v show "v = fzero ops" by (simp add: grouped_sum_def)
next
  fix r
  assume "\<forall>r \<in> set view. valid_date (ts_date (order_date r))" and "r \<in> set view"
  then show "\<exists>v. (midnight (period_end (freq_map agg) (ts_date (order_date r))), v)
                  \<in> set (time_data ops view agg)"
    by (rule time_data_cover)
next
  fix lo hi
  let ?ds = "map (\<lambda>r. ts_date (order_date r)) view"
  assume valid: "\<forall>r \<in> set view. valid_date (ts_date (order_date r))"
    and span: "lo \<in> (\<lambda>r. ts_date (order_date r)) ` set view \<and>
         hi \<in> (\<lambda>r. ts_date (order_date r)) ` set view \<and>
         (\<forall>r \<in> set view. date_le lo (ts_date (order_date r)) \<and>
                          date_le (ts_date (order_date r)) hi)"
  have "set (grouper_bins (freq_map agg) ?ds) =
        period_end (freq_map agg) ` {x. valid_date x \<and> date_le lo x \<and> date_le x hi}"
    using valid span by (intro grouper_bins_span) auto
  then have "midnight ` set (grouper_bins (freq_map agg) ?ds) =
        midnight ` period_end (freq_map agg) ` {x. valid_date x \<and> date_le lo x \<and> date_le x hi}"
    by (rule arg_cong)
  moreover have "fst ` set (time_data ops view agg) =
        midnight ` set (grouper_bins (freq_map agg) ?ds)"
    using time_data_keys [of ops view agg] by (metis set_map)
  ultimately show "fst ` set (time_data ops view agg) =
           (\<lambda>x. midnight (period_end (freq_map agg) x)) `
             {x. valid_date x \<and> date_le lo x \<and> date_le x hi}"
    by (simp only: image_image)
qed

theorem time_data_buckets_witness:
  "valid_date (ymd 2023 1 6) \<and> date_le (ymd 2023 1 5) (ymd 2023 1 6) \<and>
   date_le (ymd 2023 1 6) (ymd 2023 2 10) \<and>
   bin_rows (freq_map Journaliere) scenario_data (ymd 2023 1 6) = [] \<and>
   (midnight (ymd 2023 1 6), fzero exact_ops)
     \<in> set (time_data exact_ops scenario_data Journaliere)"
proof -
  note t = time_data_buckets [of exact_ops scenario_data Journaliere]
  let ?lo = "ymd 2023 1 5" and ?hi = "ymd 2023 2 10" and ?x = "ymd 2023 1 6"
  have span: "?lo \<in> (\<lambda>r. ts_date (order_date r)) ` set scenario_data \<and>
      ?hi \<in> (\<lambda>r. ts_date (order_date r)) ` set scenario_data \<and>
      (\<forall>r \<in> set scenario_data. date_le ?lo (ts_date (order_date r)) \<and>
                                 date_le (ts_date (order_date r)) ?hi)"
    by (simp add: scenario_data_def scenario_csv_def load_data_def add_revenue_def midnight_def
        ymd_def date_le_def date_key_def)
  have x: "valid_date ?x" "date_le ?lo ?x" "date_le ?x ?hi"
    by (simp_all add: valid_date_def ymd_def days_in_month_def is_leap_def date_le_def
        date_key_def)
  have e: "bin_rows (freq_map Journaliere) scenario_data ?x = []"
    by (simp add: bin_rows_def scenario_data_def scenario_csv_def load_data_def add_revenue_def
        midnight_def ymd_def)
  from t scenario_valid span
  have "fst ` set (time_data exact_ops scenario_data Journaliere) =
          (\<lambda>x. midnight (period_end (freq_map Journaliere) x)) `
             {x. valid_date x \<and> date_le ?lo x \<and> date_le x ?hi}"
    by blast
  moreover have "midnight ?x \<in> (\<lambda>x. midnight (period_end (freq_map Journaliere) x)) `
             {x. valid_date x \<and> date_le ?lo x \<and> date_le x ?hi}"
    using x by force
  ultimately obtain v where v: "(midnight ?x, v) \<in> set (time_data exact_ops scenario_data Journaliere)"
    by force
  have "ts_date (midnight ?x) = ?x" by (simp add: midnight_def)
  with t v e have "v = fzero exact_ops" by metis
  with v x e show ?thesis by blast
qed

text \<open>
  C9. As stated the claim fails: the monthly key is not the first day of the month. For
  the orders of 2023-01-05 (revenue 20) and 2023-02-10 (revenue 50) the monthly table is
  (2023-01-31, 20), (2023-02-28, 50), not (2023-01-01, 20), (2023-02-01, 50).
\<close>

theorem month_start_counterexample:
  "time_data exact_ops scenario_data Mensuelle \<noteq>
     [(midnight (ymd 2023 1 1), 20), (midnight (ymd 2023 2 1), 50)]"
  using scenario_monthly by (simp add: midnight_def ymd_def)

text \<open>
  C9, amended. The period key of a date is the date itself for the daily period, the last
  day of the date's calendar month for the monthly period, and the last day of the date's
  calendar quarter (the end of month 3, 6, 9 or 12) for the quarterly period; for a
  calendar date the key is a calendar date not before it, and the day after a monthly or
  quarterly key is the first of a month. Monthly bucketing of an order of 2023-01-05 with
  revenue 20 and an order of 2023-02-10 with revenue 50 gives exactly
  (2023-01-31, 20), (2023-02-28, 50), in ascending order.
\<close>

theorem period_end_keys:
  "period_end (freq_map Journaliere) d = d \<and>
   period_end (freq_map Mensuelle) d =
     \<lparr>year = year d, month = month d, day = days_in_month (year d) (month d)\<rparr> \<and>
   (valid_date d \<longrightarrow>
      year (period_end (freq_map Trimestrielle) d) = year d \<and>
      month (period_end (freq_map Trimestrielle) d) \<in> {3, 6, 9, 12} \<and>
      month d \<le> month (period_end (freq_map Trimestrielle) d) \<and>
      month (period_end (freq_map Trimestrielle) d) \<le> month d + 2 \<and>
      day (period_end (freq_map Trimestrielle) d) =
        days_in_month (year d) (month (period_end (freq_map Trimestrielle) d)) \<and>
      valid_date (period_end (freq_map agg) d) \<and>
      date_le d (period_end (freq_map agg) d) \<and>
      day (next_day (period_end (freq_map Mensuelle) d)) = 1 \<and>
      day (next_day (period_end (freq_map Trimestrielle) d)) = 1) \<and>
   time_data exact_ops scenario_data Mensuelle =
     [(midnight (ymd 2023 1 31), 20), (midnight (ymd 2023 2 28), 50)]"
proof (intro conjI impI)
  show "period_end (freq_map Journaliere) d = d" by simp
  show "period_end (freq_map Mensuelle) d =
     \<lparr>year = year d, month = month d, day = days_in_month (year d) (month d)\<rparr>"
    by simp
  show "time_data exact_ops scenario_data Mensuelle =
     [(midnight (ymd 2023 1 31), 20), (midnight (ymd 2023 2 28), 50)]"
    by (rule scenario_monthly)
next
  assume v: "valid_date d"
  let ?k = "(month d - 1) div 3"
  have m: "1 \<le> month d" "month d \<le> 12" using v by (simp_all add: valid_date_def)
  have qm: "month (period_end (freq_map Trimestrielle) d) = ?k * 3 + 3"
    by (simp add: Let_def)
  have k: "?k \<le> 3" using m by linarith
  then have "?k = 0 \<or> ?k = 1 \<or> ?k = 2 \<or> ?k = 3" by linarith
  then show "month (period_end (freq_map Trimestrielle) d) \<in> {3, 6, 9, 12}"
    unfolding qm by (elim disjE) simp_all
  show "year (period_end (freq_map Trimestrielle) d) = year d" by (simp add: Let_def)
  show "month d \<le> month (period_end (freq_map Trimestrielle) d)"
    unfolding qm by (rule quarter_month_ge)
  show "month (period_end (freq_map Trimestrielle) d) \<le> month d + 2"
    unfolding qm using m by linarith
  show "day (period_end (freq_map Trimestrielle) d) =
        days_in_month (year d) (month (period_end (freq_map Trimestrielle) d))"
    by (simp add: Let_def)
  show "valid_date (period_end (freq_map agg) d)" using v by (rule valid_period_end)
  show "date_le d (period_end (freq_map agg) d)"
    using v by (intro period_end_ge) (simp add: valid_date_def)
  show "day (next_day (period_end (freq_map Mensuelle) d)) = 1"
    by (simp add: next_day_def)
  show "day (next_day (period_end (freq_map Trimestrielle) d)) = 1"
    by (simp add: next_day_def Let_def)
qed

theorem period_end_keys_witness:
  "valid_date (ymd 2023 2 10) \<and>
   period_end (freq_map Journaliere) (ymd 2023 2 10) = ymd 2023 2 10 \<and>
   period_end (freq_map Mensuelle) (ymd 2023 2 10) = ymd 2023 2 28 \<and>
   period_end (freq_map Trimestrielle) (ymd 2023 2 10) = ymd 2023 3 31 \<and>
   month (period_end (freq_map Trimestrielle) (ymd 2023 2 10)) \<in> {3, 6, 9, 12} \<and>
   date_le (ymd 2023 2 10) (period_end (freq_map Trimestrielle) (ymd 2023 2 10))"
proof -
  have v: "valid_date (ymd 2023 2 10)"
    by (simp add: valid_date_def ymd_def days_in_month_def is_leap_def)
  have e: "period_end (freq_map Mensuelle) (ymd 2023 2 10) = ymd 2023 2 28"
    "period_end (freq_map Trimestrielle) (ymd 2023 2 10) = ymd 2023 3 31"
    by (simp_all add: ymd_def days_in_month_def is_leap_def)
  show ?thesis
    using period_end_keys [of "ymd 2023 2 10" Trimestrielle] v e by simp
qed

end
